theory Spec2Isabelle
  imports Complex_Main "HOL-Library.Log_Nat"
begin

section \<open>The imposition engine of \<^verbatim>\<open>print_all_pdfs.py\<close>\<close>

text \<open>
  Page counts and page numbers are Python integers, modelled as \<^typ>\<open>int\<close>. A call
  that raises returns the exception as a value.
\<close>

datatype py_error = OverflowError | IndexError | SystemExit int | Win32Error

subsection \<open>Half a count, as a double\<close>

text \<open>
  The source computes the number of sheets as \<^verbatim>\<open>math.ceil(total_pages / 2)\<close>. The
  quotient of two Python integers is a double: the one nearest to the exact quotient,
  a tie going to the even significand, and \<^verbatim>\<open>OverflowError\<close> when that double would
  be \<open>2 ^ 1024\<close> or more. Halving changes the exponent only, so the quotient by 2 is
  half the dividend rounded to the 53 bits of a significand.

  \<open>round_half_even_53 a\<close> rounds a natural number to 53 significant bits: \<open>e\<close> is the
  number of bits beyond 53 that \<open>a\<close> has (none below \<open>2 ^ 53\<close>), \<open>q\<close> the leading 53
  bits, \<open>r\<close> the rest.
\<close>

definition round_half_even_53 :: "nat \<Rightarrow> nat" where
  "round_half_even_53 a =
     (let e = nat (bitlen (int a)) - 53;
          q = a div 2 ^ e;
          r = a mod 2 ^ e
      in if 2 ^ e < 2 * r \<or> (2 * r = 2 ^ e \<and> odd q) then (q + 1) * 2 ^ e else q * 2 ^ e)"

text \<open>\<^verbatim>\<open>k / 2\<close> for a Python integer \<open>k\<close>; the double is given by its value.\<close>

definition py_truediv_2 :: "int \<Rightarrow> py_error + real" where
  "py_truediv_2 k =
     (let m = round_half_even_53 (nat \<bar>k\<bar>)
      in if 2 ^ 1025 \<le> m then Inl OverflowError
         else Inr (real_of_int (sgn k) * real m / 2))"

text \<open>\<^verbatim>\<open>math.ceil\<close> of a double: the least integer that is not below it.\<close>

definition math_ceil :: "real \<Rightarrow> int" where
  "math_ceil x = \<lceil>x\<rceil>"

definition num_physical_sheets :: "int \<Rightarrow> py_error + int" where
  "num_physical_sheets total_pages =
     (case py_truediv_2 total_pages of
        Inl e \<Rightarrow> Inl e
      | Inr x \<Rightarrow> Inr (math_ceil x))"

subsection \<open>The two selections\<close>

text \<open>
  \<^verbatim>\<open>range(start, stop, 2)\<close>, the sheet indices a pass visits.
\<close>

function range2 :: "int \<Rightarrow> int \<Rightarrow> int list" where
  "range2 start stop = (if start < stop then start # range2 (start + 2) stop else [])"
  by pat_completeness auto
termination
  by (relation "measure (\<lambda>(start, stop). nat (stop - start))") auto

text \<open>
  The body of the loop of \<^verbatim>\<open>get_front_pages\<close> and \<^verbatim>\<open>get_back_pages\<close> (the same
  four statements in both): the first page of the sheet is appended, the second one
  when the document has it.
\<close>

definition sheet_step :: "int \<Rightarrow> int list \<Rightarrow> int \<Rightarrow> int list" where
  "sheet_step total_pages pages sheet_idx =
     (let p1 = sheet_idx * 2 + 1;
          p2 = p1 + 1;
          pages' = pages @ [p1]
      in if p2 \<le> total_pages then pages' @ [p2] else pages')"

definition get_front_pages :: "int \<Rightarrow> py_error + int list" where
  "get_front_pages total_pages =
     (case num_physical_sheets total_pages of
        Inl e \<Rightarrow> Inl e
      | Inr num_sheets \<Rightarrow> Inr (foldl (sheet_step total_pages) [] (range2 0 num_sheets)))"

definition get_back_pages :: "int \<Rightarrow> py_error + int list" where
  "get_back_pages total_pages =
     (case num_physical_sheets total_pages of
        Inl e \<Rightarrow> Inl e
      | Inr num_sheets \<Rightarrow> Inr (foldl (sheet_step total_pages) [] (range2 1 num_sheets)))"

definition needs_back_blank :: "int \<Rightarrow> py_error + bool" where
  "needs_back_blank total_pages =
     (case num_physical_sheets total_pages of
        Inl e \<Rightarrow> Inl e
      | Inr num_sheets \<Rightarrow> Inr (num_sheets mod 2 = 1))"

section \<open>The sheet renderer\<close>

text \<open>
  Indexing a Python sequence, as \<^verbatim>\<open>pages[i]\<close> and \<^verbatim>\<open>reader.pages[i]\<close> do it: a
  negative index counts from the end, an index out of range raises \<^verbatim>\<open>IndexError\<close>.
\<close>

definition py_index :: "'a list \<Rightarrow> int \<Rightarrow> py_error + 'a" where
  "py_index xs i =
     (if 0 \<le> i \<and> i < int (length xs) then Inr (xs ! nat i)
      else if - int (length xs) \<le> i \<and> i < 0 then Inr (xs ! nat (i + int (length xs)))
      else Inl IndexError)"

text \<open>
  A page of the source document: its media box and its content, which the script
  never inspects. A sheet is the blank page of the given size together with the pages
  merged into it, each with the translation it was merged under.
\<close>

record 'c page =
  mediabox_width :: real
  mediabox_height :: real
  content :: 'c

record 'c sheet =
  sheet_width :: real
  sheet_height :: real
  merged :: "('c page \<times> real \<times> real) list"

definition create_blank_page :: "real \<Rightarrow> real \<Rightarrow> 'c sheet" where
  "create_blank_page w h = \<lparr>sheet_width = w, sheet_height = h, merged = []\<rparr>"

definition merge_transformed_page :: "'c sheet \<Rightarrow> 'c page \<Rightarrow> real \<times> real \<Rightarrow> 'c sheet" where
  "merge_transformed_page sh p t = sh\<lparr>merged := merged sh @ [(p, fst t, snd t)]\<rparr>"

definition make_2up_sheet :: "'c page \<Rightarrow> 'c page option \<Rightarrow> 'c sheet" where
  "make_2up_sheet left_page right_page =
     (let src_w = mediabox_width left_page;
          src_h = mediabox_height left_page;
          sheet_w = src_w * 2;
          sheet_h = src_h;
          sh = create_blank_page sheet_w sheet_h;
          sh = merge_transformed_page sh left_page (0, 0)
      in case right_page of
           None \<Rightarrow> sh
         | Some r \<Rightarrow> merge_transformed_page sh r (src_w, 0))"

text \<open>
  One round of the pairing loop of \<^verbatim>\<open>build_print_pdf\<close>. The writer is the list of
  sheets added so far; an exception raised in an earlier round, or in this one, ends
  the loop.
\<close>

definition pair_step ::
  "'c page list \<Rightarrow> int list \<Rightarrow> py_error + 'c sheet list \<Rightarrow> int \<Rightarrow> py_error + 'c sheet list" where
  "pair_step reader pages acc i =
     (case acc of
        Inl e \<Rightarrow> Inl e
      | Inr writer \<Rightarrow>
          (case py_index pages i of
             Inl e \<Rightarrow> Inl e
           | Inr pl \<Rightarrow>
               (case py_index reader (pl - 1) of
                  Inl e \<Rightarrow> Inl e
                | Inr left \<Rightarrow>
                    if i + 1 < int (length pages) then
                      (case py_index pages (i + 1) of
                         Inl e \<Rightarrow> Inl e
                       | Inr pr \<Rightarrow>
                           (case py_index reader (pr - 1) of
                              Inl e \<Rightarrow> Inl e
                            | Inr right \<Rightarrow> Inr (writer @ [make_2up_sheet left (Some right)])))
                    else Inr (writer @ [make_2up_sheet left None]))))"

text \<open>
  \<^verbatim>\<open>build_print_pdf\<close> returns the path of a temporary file; the model returns what
  the writer wrote into it, the sheets in their order.
\<close>

definition build_print_pdf ::
  "'c page list \<Rightarrow> int list \<Rightarrow> bool \<Rightarrow> py_error + 'c sheet list" where
  "build_print_pdf reader pages append_blank =
     (case py_index reader 0 of
        Inl e \<Rightarrow> Inl e
      | Inr ref_page \<Rightarrow>
          (let ref_w = mediabox_width ref_page;
               ref_h = mediabox_height ref_page
           in case foldl (pair_step reader pages) (Inr []) (range2 0 (int (length pages))) of
                Inl e \<Rightarrow> Inl e
              | Inr writer \<Rightarrow>
                  if append_blank then Inr (writer @ [create_blank_page (ref_w * 2) ref_h])
                  else Inr writer))"

section \<open>Printing one file\<close>

text \<open>
  \<^verbatim>\<open>print_pdf\<close> opens the file, chooses the pages of the pass, and either skips the
  pass or writes a document and hands it to \<^verbatim>\<open>send_to_printer\<close>. The model starts
  from the opened document, the list \<^verbatim>\<open>reader.pages\<close>, and ends with what is handed
  over: nothing (the pass is skipped), or a document, together with the number of output
  sheets the function announces when the document comes from \<^verbatim>\<open>build_print_pdf\<close>.
  The other console messages, the dispatch itself and the removal of the temporary file
  are left out.
\<close>

datatype 'c outcome = Skipped | Sent "int option" "'c sheet list"

text \<open>The choice of pages and of the blank flag, lines 219 to 224 of the script.\<close>

definition print_pdf_selection :: "string \<Rightarrow> int \<Rightarrow> py_error + int list \<times> bool" where
  "print_pdf_selection side total_pages =
     (if side = ''front'' then
        (case get_front_pages total_pages of
           Inl e \<Rightarrow> Inl e
         | Inr pages \<Rightarrow> Inr (pages, False))
      else
        (case get_back_pages total_pages of
           Inl e \<Rightarrow> Inl e
         | Inr pages \<Rightarrow>
             (case needs_back_blank total_pages of
                Inl e \<Rightarrow> Inl e
              | Inr append_blank \<Rightarrow> Inr (pages, append_blank))))"

text \<open>
  The number \<^verbatim>\<open>print_pdf\<close> announces, line 248 of the script:
  \<^verbatim>\<open>math.ceil(len(pages) / 2) + (1 if append_blank else 0)\<close>. The dividend is the
  length of a list in memory, which is below \<open>2 ^ 53\<close>, where the double quotient is the
  exact one (lemma \<open>output_sheets_double\<close> below).
\<close>

definition output_sheets :: "int list \<Rightarrow> bool \<Rightarrow> int" where
  "output_sheets pages append_blank =
     \<lceil>real (length pages) / 2\<rceil> + (if append_blank then 1 else 0)"

definition print_pdf :: "'c page list \<Rightarrow> string \<Rightarrow> py_error + 'c outcome" where
  "print_pdf reader side =
     (let total_pages = int (length reader)
      in case num_physical_sheets total_pages of
           Inl e \<Rightarrow> Inl e
         | Inr num_sheets \<Rightarrow>
             (case print_pdf_selection side total_pages of
                Inl e \<Rightarrow> Inl e
              | Inr (pages, append_blank) \<Rightarrow>
                  if pages = [] then
                    (if side = ''back'' \<and> num_sheets \<ge> 1 then
                       (case py_index reader 0 of
                          Inl e \<Rightarrow> Inl e
                        | Inr ref \<Rightarrow>
                            Inr (Sent None
                              [create_blank_page (mediabox_width ref * 2)
                                 (mediabox_height ref)]))
                     else Inr Skipped)
                  else
                    (case build_print_pdf reader pages append_blank of
                       Inl e \<Rightarrow> Inl e
                     | Inr doc \<Rightarrow>
                         Inr (Sent (Some (output_sheets pages append_blank)) doc))))"

section \<open>The win32 fallback\<close>

text \<open>
  \<^verbatim>\<open>print_via_win32\<close> talks to the Windows spooler through pywin32, which is not part
  of the script. The model keeps what the function can observe of it: whether pywin32
  can be imported, the default printer (none may be set), the printers that exist,
  whether the shell accepts the \<^verbatim>\<open>printto\<close> request, and the calls made so far.
  \<^verbatim>\<open>GetDefaultPrinter\<close> raises when no default printer is set,
  \<^verbatim>\<open>SetDefaultPrinter\<close> raises for a name that is no printer, and
  \<^verbatim>\<open>ShellExecute\<close> raises when the shell refuses the request.
\<close>

datatype api_call =
  GetDefaultPrinter
| SetDefaultPrinter string
| ShellExecute string string string

record win32 =
  pywin32_installed :: bool
  default_printer :: "string option"
  printers :: "string list"
  shell_execute_ok :: bool
  calls :: "api_call list"

definition win32_GetDefaultPrinter :: "win32 \<Rightarrow> (py_error + string) \<times> win32" where
  "win32_GetDefaultPrinter w =
     (case default_printer w of None \<Rightarrow> Inl Win32Error | Some p \<Rightarrow> Inr p,
      w\<lparr>calls := calls w @ [GetDefaultPrinter]\<rparr>)"

definition win32_SetDefaultPrinter :: "string \<Rightarrow> win32 \<Rightarrow> (py_error + unit) \<times> win32" where
  "win32_SetDefaultPrinter p w =
     (let w' = w\<lparr>calls := calls w @ [SetDefaultPrinter p]\<rparr>
      in if p \<in> set (printers w) then (Inr (), w'\<lparr>default_printer := Some p\<rparr>)
         else (Inl Win32Error, w'))"

definition win32_ShellExecute ::
  "string \<Rightarrow> string \<Rightarrow> string \<Rightarrow> win32 \<Rightarrow> (py_error + unit) \<times> win32" where
  "win32_ShellExecute verb file params w =
     (if shell_execute_ok w then Inr () else Inl Win32Error,
      w\<lparr>calls := calls w @ [ShellExecute verb file params]\<rparr>)"

text \<open>
  The function itself. A failed import ends the program with \<^verbatim>\<open>sys.exit(1)\<close>; the
  default printer is read before the \<^verbatim>\<open>try\<close>; the \<^verbatim>\<open>finally\<close> clause runs
  after the body whether it raised or not, and an exception of its own replaces the
  body's.
\<close>

definition print_via_win32 :: "string \<Rightarrow> string \<Rightarrow> win32 \<Rightarrow> (py_error + unit) \<times> win32" where
  "print_via_win32 pdf_path printer w =
     (if \<not> pywin32_installed w then (Inl (SystemExit 1), w)
      else
        (case win32_GetDefaultPrinter w of
           (Inl e, w1) \<Rightarrow> (Inl e, w1)
         | (Inr original, w1) \<Rightarrow>
             (let (r, w2) =
                    (case win32_SetDefaultPrinter printer w1 of
                       (Inl e, w2) \<Rightarrow> (Inl e, w2)
                     | (Inr u, w2) \<Rightarrow>
                         win32_ShellExecute ''printto'' pdf_path
                           ([CHR 0x22] @ printer @ [CHR 0x22]) w2)
              in case win32_SetDefaultPrinter original w2 of
                   (Inl e, w3) \<Rightarrow> (Inl e, w3)
                 | (Inr u, w3) \<Rightarrow> (r, w3))))"

section \<open>The page selections as the specification words them\<close>

text \<open>
  For sheet index \<open>s\<close> the first page is \<open>2s + 1\<close>; it is selected, and so is the next
  page when the document has it. The front pass takes the sheet indices 0, 2, 4, ...
  below the number of sheets \<^verbatim>\<open>num_physical_sheets\<close> returns, the back pass the
  indices 1, 3, 5, ...
\<close>

definition spec_sheet_pages :: "int \<Rightarrow> int \<Rightarrow> int list" where
  "spec_sheet_pages pageCount s =
     [2 * s + 1] @ (if 2 * s + 2 \<le> pageCount then [2 * s + 2] else [])"

definition spec_front_pages :: "int \<Rightarrow> py_error + int list" where
  "spec_front_pages pageCount =
     (case num_physical_sheets pageCount of
        Inl e \<Rightarrow> Inl e
      | Inr sheetCount \<Rightarrow>
          Inr (concat (map (spec_sheet_pages pageCount) (filter even [0..sheetCount - 1]))))"

definition spec_back_pages :: "int \<Rightarrow> py_error + int list" where
  "spec_back_pages pageCount =
     (case num_physical_sheets pageCount of
        Inl e \<Rightarrow> Inl e
      | Inr sheetCount \<Rightarrow>
          Inr (concat (map (spec_sheet_pages pageCount) (filter odd [0..sheetCount - 1]))))"

text \<open>
  The renderer as the specification words it: the selected pages are consumed two at
  a time, in order; the first goes to the left half of a sheet, the second, if there
  is one, to the right half.
\<close>

fun spec_pair_up :: "'c page list \<Rightarrow> 'c sheet list" where
  "spec_pair_up [] = []"
| "spec_pair_up [l] = [make_2up_sheet l None]"
| "spec_pair_up (l # r # ps) = make_2up_sheet l (Some r) # spec_pair_up ps"

text \<open>The pages a sheet shows, from left to right.\<close>

definition pages_on :: "'c sheet \<Rightarrow> 'c page list" where
  "pages_on sh = map fst (merged sh)"

section \<open>Properties of the page selections\<close>

subsection \<open>The loops\<close>

declare range2.simps [simp del]

lemma sheet_step_Nil:
  "sheet_step n [] s = (if 2 * s + 2 \<le> n then [2 * s + 1, 2 * s + 2] else [2 * s + 1])"
  by (simp add: sheet_step_def Let_def mult.commute)

lemma sheet_step_append: "sheet_step n acc s = acc @ sheet_step n [] s"
  by (simp add: sheet_step_def Let_def)

lemma foldl_sheet_step:
  "foldl (sheet_step n) acc xs = acc @ concat (map (sheet_step n []) xs)"
proof (induction xs arbitrary: acc)
  case Nil
  show ?case by simp
next
  case (Cons s xs)
  have "foldl (sheet_step n) acc (s # xs) = foldl (sheet_step n) (sheet_step n acc s) xs"
    by simp
  also have "\<dots> = sheet_step n acc s @ concat (map (sheet_step n []) xs)"
    by (rule Cons.IH)
  also have "\<dots> = (acc @ sheet_step n [] s) @ concat (map (sheet_step n []) xs)"
    using sheet_step_append [of n acc s] by simp
  finally show ?case by simp
qed

lemma upto_unroll4: "a + 3 \<le> n \<Longrightarrow> [a..n] = [a, a + 1, a + 2, a + 3] @ [a + 4..n]"
  by (simp add: upto_rec1 add.commute)

lemma filter_upto_skip:
  assumes "2 * i + 1 \<le> n"
  shows "filter (\<lambda>p. even ((p - 1) div 2) = even i) [2 * i + 1..n] =
    sheet_step n [] i @ filter (\<lambda>p. even ((p - 1) div 2) = even (i + 2)) [2 * (i + 2) + 1..n]"
proof -
  consider "n = 2 * i + 1" | "n = 2 * i + 2" | "n = 2 * i + 3" | "2 * i + 4 \<le> n"
    using assms by linarith
  then show ?thesis
  proof cases
    case 1
    then show ?thesis by (simp add: sheet_step_Nil upto_rec1)
  next
    case 2
    then show ?thesis by (simp add: sheet_step_Nil upto_rec1)
  next
    case 3
    then show ?thesis by (simp add: sheet_step_Nil upto_rec1)
  next
    case 4
    then show ?thesis by (simp add: sheet_step_Nil upto_unroll4 [of "2 * i + 1" n])
  qed
qed

lemma pass_pages_filter:
  "concat (map (sheet_step n []) (range2 i ((n + 1) div 2))) =
     filter (\<lambda>p. even ((p - 1) div 2) = even i) [2 * i + 1..n]"
proof (induction i "(n + 1) div 2" rule: range2.induct)
  case (1 i)
  show ?case
  proof (cases "i < (n + 1) div 2")
    case False
    then have "n < 2 * i + 1" by linarith
    with False show ?thesis by (simp add: range2.simps [of i])
  next
    case True
    then have le: "2 * i + 1 \<le> n" by linarith
    note IH = 1 [OF True]
    show ?thesis 
      using True le IH by (simp add: range2.simps [of i] filter_upto_skip [of i n])
  qed
qed

lemma range2_filter:
  "range2 i stop = filter (\<lambda>s. even s = even i) [i..stop - 1]"
proof (induction i stop rule: range2.induct)
  case (1 i stop)
  show ?case
  proof (cases "i < stop")
    case False
    then show ?thesis by (simp add: range2.simps [of i])
  next
    case True
    note IH = 1 [OF True]
    consider "stop = i + 1" | "i + 2 \<le> stop" using True by linarith
    then show ?thesis
    proof cases
      case 1
      then show ?thesis by (simp add: range2.simps [of i] range2.simps [of "i + 2"] upto_rec1)
    next
      case 2
      then have "[i..stop - 1] = i # (i + 1) # [i + 2..stop - 1]"
        by (simp add: upto_rec1 add.commute)
      with True IH show ?thesis by (simp add: range2.simps [of i])
    qed
  qed
qed

lemma length_sheet_step_Nil:
  "length (sheet_step n [] s) = (if 2 * s + 2 \<le> n then 2 else 1)"
  by (simp add: sheet_step_Nil)

lemma half_pass_length:
  "(int (length (concat (map (sheet_step n []) (range2 i ((n + 1) div 2))))) + 1) div 2
     = int (length (range2 i ((n + 1) div 2)))"
proof (induction i "(n + 1) div 2" rule: range2.induct)
  case (1 i)
  show ?case
  proof (cases "i < (n + 1) div 2")
    case False
    then show ?thesis by (simp add: range2.simps [of i])
  next
    case True
    note IH = 1 [OF True]
    show ?thesis
    proof (cases "2 * i + 2 \<le> n")
      case full: True
      with True IH show ?thesis
        by (simp add: range2.simps [of i] length_sheet_step_Nil)
    next
      case short: False
      then have "\<not> i + 2 < (n + 1) div 2" by linarith
      then have "range2 (i + 2) ((n + 1) div 2) = []" by (simp add: range2.simps [of "i + 2"])
      with True short show ?thesis
        by (simp add: range2.simps [of i] length_sheet_step_Nil)
    qed
  qed
qed

lemma length_range2: "int (length (range2 i stop)) = (if i < stop then (stop - i + 1) div 2 else 0)"
proof (induction i stop rule: range2.induct)
  case (1 i stop)
  show ?case
  proof (cases "i < stop")
    case False
    then show ?thesis by (simp add: range2.simps [of i])
  next
    case True
    with 1 [OF True] show ?thesis
      by (simp add: range2.simps [of i]) linarith
  qed
qed

subsection \<open>The double quotient\<close>

lemma round_half_even_53_small:
  assumes "a < 2 ^ 53"
  shows "round_half_even_53 a = a"
proof -
  from assms have "bitlen (int a) \<le> 53"
    using less_power_nat_iff_bitlen [of a 53] by simp
  then have "nat (bitlen (int a)) - 53 = 0" by simp
  then show ?thesis by (simp add: round_half_even_53_def)
qed

lemma ceiling_half: "\<lceil>real_of_int k / 2\<rceil> = (k + 1) div 2"
  by linarith

lemma num_physical_sheets_small:
  assumes "\<bar>k\<bar> < 2 ^ 53"
  shows "num_physical_sheets k = Inr ((k + 1) div 2)"
proof -
  from assms have "nat \<bar>k\<bar> < 2 ^ 53" by (simp add: nat_less_iff)
  then have r: "round_half_even_53 (nat \<bar>k\<bar>) = nat \<bar>k\<bar>"
    by (rule round_half_even_53_small)
  have lt: "nat \<bar>k\<bar> < 2 ^ 1025"
    using \<open>nat \<bar>k\<bar> < 2 ^ 53\<close> by (rule less_le_trans) simp
  have v: "real_of_int (sgn k) * real (nat \<bar>k\<bar>) = real_of_int k"
    by (simp add: sgn_if)
  have "py_truediv_2 k = Inr (real_of_int k / 2)"
    using lt by (simp add: py_truediv_2_def r v del: of_nat_nat)
  then show ?thesis
    by (simp add: num_physical_sheets_def math_ceil_def ceiling_half)
qed

lemma num_physical_sheets_small_ceiling:
  assumes "\<bar>k\<bar> < 2 ^ 53"
  shows "num_physical_sheets k = Inr \<lceil>real_of_int k / 2\<rceil>"
  using num_physical_sheets_small [OF assms] by (simp add: ceiling_half)

lemma round_half_even_53_ge_power:
  assumes "2 ^ w \<le> a"
  shows "2 ^ w \<le> round_half_even_53 a"
proof -
  define b where "b = nat (bitlen (int a))"
  define e where "e = b - 53"
  from assms have pos: "0 < a"
    by (simp add: less_le_trans [of 0 "2 ^ w" a])
  have bl: "bitlen (int a) = int b"
    unfolding b_def by (simp add: bitlen_nonneg)
  have hi: "a < 2 ^ b"
    unfolding less_power_nat_iff_bitlen bl by simp
  from pos have "bitlen (int a) \<noteq> 0" by (simp add: bitlen_eq_zero_iff)
  with bl have b1: "1 \<le> b" by simp
  have "\<not> a < 2 ^ (b - 1)"
    unfolding less_power_nat_iff_bitlen bl using b1 by simp
  then have lo: "2 ^ (b - 1) \<le> a" by simp
  from assms hi have "(2::nat) ^ w < 2 ^ b" by (rule le_less_trans)
  then have wb: "w < b" by simp
  then have eb: "e \<le> b - 1" unfolding e_def by simp
  have split: "(2::nat) ^ (b - 1) = 2 ^ (b - 1 - e) * 2 ^ e"
    using eb by (simp flip: power_add)
  with lo have "2 ^ (b - 1 - e) * 2 ^ e \<le> a" by simp
  then have q: "2 ^ (b - 1 - e) \<le> a div 2 ^ e"
    by (simp add: less_eq_div_iff_mult_less_eq)
  have "(2::nat) ^ w \<le> 2 ^ (b - 1)"
    using wb by (simp add: power_increasing)
  also have "\<dots> = 2 ^ (b - 1 - e) * 2 ^ e"
    by (rule split)
  also have "\<dots> \<le> (a div 2 ^ e) * 2 ^ e"
    using q by (rule mult_le_mono1)
  finally have base: "2 ^ w \<le> (a div 2 ^ e) * 2 ^ e" .
  have "(a div 2 ^ e) * 2 ^ e \<le> round_half_even_53 a"
    by (simp add: round_half_even_53_def Let_def e_def b_def)
  with base show ?thesis by (rule le_trans)
qed


lemma num_physical_sheets_cases:
  obtains "num_physical_sheets k = Inl OverflowError"
  | "num_physical_sheets k
      = Inr \<lceil>real_of_int (sgn k) * real (round_half_even_53 (nat \<bar>k\<bar>)) / 2\<rceil>"
proof (cases "2 ^ 1025 \<le> round_half_even_53 (nat \<bar>k\<bar>)")
  case True
  then have "num_physical_sheets k = Inl OverflowError"
    by (simp add: num_physical_sheets_def py_truediv_2_def Let_def)
  then show ?thesis by (rule that(1))
next
  case False
  then have "num_physical_sheets k
      = Inr \<lceil>real_of_int (sgn k) * real (round_half_even_53 (nat \<bar>k\<bar>)) / 2\<rceil>"
    by (simp add: num_physical_sheets_def py_truediv_2_def Let_def math_ceil_def)
  then show ?thesis by (rule that(2))
qed

lemma num_physical_sheets_positive:
  assumes "num_physical_sheets n = Inr S"
  shows "1 \<le> S \<longleftrightarrow> 1 \<le> n"
proof -
  let ?m = "round_half_even_53 (nat \<bar>n\<bar>)"
  from assms have S: "S = \<lceil>real_of_int (sgn n) * real ?m / 2\<rceil>"
    by (cases n rule: num_physical_sheets_cases) simp_all
  show ?thesis
  proof (cases "1 \<le> n")
    case True
    then have "2 ^ 0 \<le> nat \<bar>n\<bar>" by simp
    then have "2 ^ 0 \<le> ?m" by (rule round_half_even_53_ge_power)
    then have "1 \<le> real ?m" by simp
    with True have "0 < real_of_int (sgn n) * real ?m / 2" by (simp add: sgn_if)
    then have "1 \<le> S" unfolding S by linarith
    with True show ?thesis by simp
  next
    case False
    then have "real_of_int (sgn n) \<le> 0" by (simp add: sgn_if)
    then have "real_of_int (sgn n) * real ?m / 2 \<le> 0"
      by (simp add: mult_le_0_iff)
    then have "S \<le> 0" unfolding S by linarith
    with False show ?thesis by simp
  qed
qed

lemma num_physical_sheets_ge_3:
  assumes "num_physical_sheets n = Inr S" and "3 \<le> n"
  shows "2 \<le> S"
proof (cases "n < 2 ^ 53")
  case True
  with assms(2) have "\<bar>n\<bar> < 2 ^ 53" by simp
  from num_physical_sheets_small [OF this] assms show ?thesis by simp
next
  case False
  let ?m = "round_half_even_53 (nat \<bar>n\<bar>)"
  from assms have S: "S = \<lceil>real_of_int (sgn n) * real ?m / 2\<rceil>"
    by (cases n rule: num_physical_sheets_cases) simp_all
  from False have "2 ^ 53 \<le> nat \<bar>n\<bar>" by (simp add: le_nat_iff)
  then have "2 ^ 53 \<le> ?m" by (rule round_half_even_53_ge_power)
  then have "(2::real) ^ 53 \<le> real ?m"
    by (metis of_nat_le_iff of_nat_numeral of_nat_power)
  moreover from assms(2) have "sgn n = 1" by simp
  ultimately have "2 \<le> real_of_int (sgn n) * real ?m / 2" by simp
  then show ?thesis unfolding S by linarith
qed

lemma num_physical_sheets_le_2:
  assumes "num_physical_sheets n = Inr S" and "n \<le> 2"
  shows "S \<le> 1"
proof (cases "1 \<le> n")
  case True
  with assms(2) have "\<bar>n\<bar> < 2 ^ 53" by simp
  from num_physical_sheets_small [OF this] assms True show ?thesis by simp
next
  case False
  with num_physical_sheets_positive [OF assms(1)] show ?thesis by simp
qed

subsection \<open>The selections\<close>

lemma range2_bounds: "s \<in> set (range2 i stop) \<Longrightarrow> i \<le> s \<and> s < stop"
  by (auto simp add: range2_filter)

lemma sheet_step_pages: "p \<in> set (sheet_step n [] s) \<Longrightarrow> p = 2 * s + 1 \<or> p = 2 * s + 2"
  by (auto simp add: sheet_step_Nil split: if_splits)

lemma pass_pages_bounds:
  assumes "p \<in> set (concat (map (sheet_step n []) (range2 i stop)))"
  shows "2 * i + 1 \<le> p \<and> p \<le> 2 * stop"
proof -
  from assms obtain s where s: "s \<in> set (range2 i stop)" and p: "p \<in> set (sheet_step n [] s)"
    by auto
  from range2_bounds [OF s] sheet_step_pages [OF p] show ?thesis by auto
qed


lemma sorted_pass_pages:
  "sorted_wrt (<) (concat (map (sheet_step n []) (range2 i stop)))"
proof (induction i stop rule: range2.induct)
  case (1 i stop)
  show ?case
  proof (cases "i < stop")
    case False
    then show ?thesis by (simp add: range2.simps [of i])
  next
    case True
    note IH = 1 [OF True]
    have here: "sorted_wrt (<) (sheet_step n [] i)"
      by (simp add: sheet_step_Nil)
    have cross: "x < y" if "x \<in> set (sheet_step n [] i)"
      and "y \<in> set (concat (map (sheet_step n []) (range2 (i + 2) stop)))" for x y
      using sheet_step_pages [OF that(1)] pass_pages_bounds [OF that(2)] by auto
    from True have "concat (map (sheet_step n []) (range2 i stop))
        = sheet_step n [] i @ concat (map (sheet_step n []) (range2 (i + 2) stop))"
      by (simp add: range2.simps [of i])
    with here IH cross show ?thesis
      by (simp add: sorted_wrt_append)
  qed
qed

lemma pass_pages_empty:
  "concat (map (sheet_step n []) (range2 i stop)) = [] \<longleftrightarrow> stop \<le> i"
proof (cases "i < stop")
  case True
  then have "concat (map (sheet_step n []) (range2 i stop))
        = sheet_step n [] i @ concat (map (sheet_step n []) (range2 (i + 2) stop))"
    by (simp add: range2.simps [of i])
  with True show ?thesis by (simp add: sheet_step_Nil)
next
  case False
  then show ?thesis by (simp add: range2.simps [of i])
qed

lemma get_front_pages_Inr:
  "num_physical_sheets n = Inr S \<Longrightarrow>
     get_front_pages n = Inr (concat (map (sheet_step n []) (range2 0 S)))"
  by (simp add: get_front_pages_def foldl_sheet_step)

lemma get_back_pages_Inr:
  "num_physical_sheets n = Inr S \<Longrightarrow>
     get_back_pages n = Inr (concat (map (sheet_step n []) (range2 1 S)))"
  by (simp add: get_back_pages_def foldl_sheet_step)


lemma get_back_pages_Inl:
  "num_physical_sheets n = Inl e \<Longrightarrow> get_back_pages n = Inl e"
  by (simp add: get_back_pages_def)

lemma needs_back_blank_Inr:
  "num_physical_sheets n = Inr S \<Longrightarrow> needs_back_blank n = Inr (odd S)"
  by (simp add: needs_back_blank_def odd_iff_mod_2_eq_one)


lemma get_front_pages_exact:
  assumes "num_physical_sheets n = Inr ((n + 1) div 2)"
  shows "get_front_pages n = Inr (filter (\<lambda>p. even ((p - 1) div 2)) [1..n])"
  using pass_pages_filter [of n 0] by (simp add: get_front_pages_Inr [OF assms])

lemma filter_odd_sheets_from_3:
  "filter (\<lambda>p. odd ((p - 1) div 2)) [3..n] = filter (\<lambda>p. odd ((p - 1) div 2)) [1..n]"
proof -
  consider "n < 1" | "n = 1" | "n = 2" | "3 \<le> n" by linarith
  then show ?thesis
  proof cases
    case 4
    then have "[1..n] = 1 # 2 # [3..n]" by (simp add: upto_rec1)
    then show ?thesis by simp
  qed (simp_all add: upto_rec1)
qed

lemma get_back_pages_exact:
  assumes "num_physical_sheets n = Inr ((n + 1) div 2)"
  shows "get_back_pages n = Inr (filter (\<lambda>p. odd ((p - 1) div 2)) [1..n])"
  using pass_pages_filter [of n 1]
  by (simp add: get_back_pages_Inr [OF assms] filter_odd_sheets_from_3)

lemma get_back_pages_empty:
  "get_back_pages n = Inr [] \<longleftrightarrow> n \<le> 2 \<and> num_physical_sheets n \<noteq> Inl OverflowError"
proof (cases n rule: num_physical_sheets_cases)
  case 1
  then show ?thesis by (simp add: get_back_pages_Inl)
next
  case 2
  let ?S = "\<lceil>real_of_int (sgn n) * real (round_half_even_53 (nat \<bar>n\<bar>)) / 2\<rceil>"
  have b: "get_back_pages n = Inr (concat (map (sheet_step n []) (range2 1 ?S)))"
    by (rule get_back_pages_Inr [OF 2])
  have "get_back_pages n = Inr [] \<longleftrightarrow> ?S \<le> 1"
    unfolding b sum.inject pass_pages_empty by (rule refl)
  moreover have "?S \<le> 1 \<longleftrightarrow> n \<le> 2"
    using num_physical_sheets_le_2 [OF 2] num_physical_sheets_ge_3 [OF 2]
    by (cases "n \<le> 2") auto
  ultimately show ?thesis using 2 by simp
qed

lemma front_sheet_count:
  "(int (length (filter (\<lambda>p. even ((p - 1) div 2)) [1..n])) + 1) div 2
     = (if 0 < (n + 1) div 2 then ((n + 1) div 2 + 1) div 2 else 0)"
  using half_pass_length [of n 0]
  by (simp add: pass_pages_filter length_range2)

lemma back_sheet_count:
  "(int (length (filter (\<lambda>p. odd ((p - 1) div 2)) [1..n])) + 1) div 2
     = (if 1 < (n + 1) div 2 then (n + 1) div 2 div 2 else 0)"
  using half_pass_length [of n 1]
  by (simp add: pass_pages_filter length_range2 filter_odd_sheets_from_3)

text \<open>The loops against the specification's wording of them.\<close>

lemma sheet_step_spec: "sheet_step n [] s = spec_sheet_pages n s"
  by (simp add: sheet_step_Nil spec_sheet_pages_def)

lemma range2_even: "range2 0 stop = filter even [0..stop - 1]"
  by (simp add: range2_filter [of 0 stop])

lemma range2_odd: "range2 1 stop = filter odd [0..stop - 1]"
proof (cases "0 \<le> stop - 1")
  case True
  then have "[0..stop - 1] = 0 # [1..stop - 1]" by (simp add: upto_rec1)
  then show ?thesis by (simp add: range2_filter [of 1 stop])
next
  case False
  then show ?thesis by (simp add: range2_filter [of 1 stop])
qed

lemma bitlen_a: "bitlen (2 ^ 53 + 1) = 54"
  using bitlen_twopow_add_eq [of 1 53] by simp

lemma round_a: "round_half_even_53 (2 ^ 53 + 1) = 2 ^ 53"
proof -
  have "bitlen (int (2 ^ 53 + 1)) = 54" using bitlen_a by simp
  then show ?thesis by (simp add: round_half_even_53_def)
qed

lemma sheets_a: "num_physical_sheets (2 ^ 53 + 1) = Inr (2 ^ 52)"
proof -
  have "nat \<bar>2 ^ 53 + 1 :: int\<bar> = 2 ^ 53 + 1" by simp
  then have m: "round_half_even_53 (nat \<bar>2 ^ 53 + 1 :: int\<bar>) = 2 ^ 53"
    by (simp only: round_a)
  show ?thesis
    unfolding num_physical_sheets_def py_truediv_2_def m Let_def math_ceil_def
    by simp
qed

section \<open>Properties of the renderer\<close>

lemma length_spec_pair_up: "int (length (spec_pair_up ps)) = (int (length ps) + 1) div 2"
  by (induction ps rule: spec_pair_up.induct) simp_all

lemma pages_on_make_2up_sheet:
  "pages_on (make_2up_sheet l None) = [l]"
  "pages_on (make_2up_sheet l (Some r)) = [l, r]"
  by (simp_all add: pages_on_def make_2up_sheet_def merge_transformed_page_def
      create_blank_page_def Let_def)

lemma concat_pages_on_spec_pair_up: "concat (map pages_on (spec_pair_up ps)) = ps"
  by (induction ps rule: spec_pair_up.induct) (simp_all add: pages_on_make_2up_sheet)

lemma spec_pair_up_no_blank: "sh \<in> set (spec_pair_up ps) \<Longrightarrow> pages_on sh \<noteq> []"
  by (induction ps rule: spec_pair_up.induct) (auto simp add: pages_on_make_2up_sheet)

lemma pair_loop:
  assumes inb: "\<forall>p\<in>set pages. 1 \<le> p \<and> p \<le> int (length reader)"
  shows "0 \<le> i \<Longrightarrow>
    foldl (pair_step reader pages) (Inr writer) (range2 i (int (length pages)))
      = Inr (writer @ spec_pair_up (drop (nat i) (map (\<lambda>p. reader ! nat (p - 1)) pages)))"
proof (induction i "int (length pages)" arbitrary: writer rule: range2.induct)
  case (1 i)
  let ?sel = "map (\<lambda>p. reader ! nat (p - 1)) pages"
  show ?case
  proof (cases "i < int (length pages)")
    case False
    then show ?thesis by (simp add: range2.simps [of i])
  next
    case True
    have look: "py_index pages k = Inr (pages ! nat k)
        \<and> py_index reader (pages ! nat k - 1) = Inr (reader ! nat (pages ! nat k - 1))"
      if "0 \<le> k" "k < int (length pages)" for k
    proof -
      from that have "pages ! nat k \<in> set pages" by simp
      with inb have "1 \<le> pages ! nat k \<and> pages ! nat k \<le> int (length reader)" by blast
      with that show ?thesis by (simp add: py_index_def)
    qed
    from True \<open>0 \<le> i\<close> have ni: "nat i < length ?sel" by simp
    show ?thesis
    proof (cases "i + 1 < int (length pages)")
      case two: True
      from two \<open>0 \<le> i\<close> have ni1: "Suc (nat i) < length ?sel" by simp
      have d1: "drop (nat i) ?sel = ?sel ! nat i # drop (Suc (nat i)) ?sel"
        using ni by (rule Cons_nth_drop_Suc [symmetric])
      have d2: "drop (Suc (nat i)) ?sel = ?sel ! Suc (nat i) # drop (Suc (Suc (nat i))) ?sel"
        using ni1 by (rule Cons_nth_drop_Suc [symmetric])
      have d3: "nat (i + 2) = Suc (Suc (nat i))"
        using \<open>0 \<le> i\<close> by simp
      have dr: "drop (nat i) ?sel
          = ?sel ! nat i # ?sel ! Suc (nat i) # drop (nat (i + 2)) ?sel"
        by (simp only: d1 d2 d3)
      have st: "pair_step reader pages (Inr writer) i
          = Inr (writer @ [make_2up_sheet (?sel ! nat i) (Some (?sel ! Suc (nat i)))])"
        using look [of i] look [of "i + 1"] True two \<open>0 \<le> i\<close> ni ni1
        by (simp add: pair_step_def nat_add_distrib)
      from \<open>0 \<le> i\<close> have "0 \<le> i + 2" by simp
      note IH = 1 (1) [OF True this]
      show ?thesis
        using True by (simp add: range2.simps [of i] st IH dr)
    next
      case one: False
      with True \<open>0 \<le> i\<close> have "Suc (nat i) = length ?sel" by simp
      then have dr: "drop (nat i) ?sel = [?sel ! nat i]"
        using ni by (metis Cons_nth_drop_Suc drop_all order_refl)
      have st: "pair_step reader pages (Inr writer) i
          = Inr (writer @ [make_2up_sheet (?sel ! nat i) None])"
        using look [of i] True one \<open>0 \<le> i\<close> ni
        by (simp add: pair_step_def)
      from one have "range2 (i + 2) (int (length pages)) = []"
        by (simp add: range2.simps [of "i + 2"])
      then show ?thesis
        using True by (simp add: range2.simps [of i] st dr)
    qed
  qed
qed

lemma build_print_pdf_spec:
  assumes "reader \<noteq> []" and "\<forall>p\<in>set pages. 1 \<le> p \<and> p \<le> int (length reader)"
  shows "build_print_pdf reader pages append_blank
    = Inr (spec_pair_up (map (\<lambda>p. reader ! nat (p - 1)) pages)
        @ (if append_blank
           then [create_blank_page (mediabox_width (reader ! 0) * 2) (mediabox_height (reader ! 0))]
           else []))"
proof -
  from assms(1) have "py_index reader 0 = Inr (reader ! 0)"
    by (simp add: py_index_def)
  then show ?thesis
    using pair_loop [OF assms(2), of 0 "[]"]
    by (simp add: build_print_pdf_def)
qed

lemma subset_range_ball:
  "set pages \<subseteq> {1..n} \<Longrightarrow> \<forall>p\<in>set pages. 1 \<le> p \<and> p \<le> (n::int)"
  by auto

lemma nonempty_selection_reader:
  assumes "set pages \<subseteq> {1..int (length reader)}" and "pages \<noteq> []"
  shows "reader \<noteq> []"
proof
  assume "reader = []"
  with assms(1) have "set pages = {}" by simp
  with assms(2) show False by simp
qed

lemma foldl_pair_step_Inl: "foldl (pair_step reader pages) (Inl e) xs = Inl e"
  by (induction xs) (simp_all add: pair_step_def)

lemma pair_step_Inr:
  assumes "pair_step reader pages (Inr writer) i = Inr writer'"
  shows "\<exists>sh. writer' = writer @ [sh] \<and> pages_on sh \<noteq> []"
  using assms
  by (auto simp add: pair_step_def pages_on_make_2up_sheet split: sum.splits if_splits)

lemma foldl_pair_step_Inr:
  assumes "foldl (pair_step reader pages) (Inr writer) xs = Inr writer'"
  shows "\<exists>new. writer' = writer @ new \<and> length new = length xs
           \<and> list_all (\<lambda>sh. pages_on sh \<noteq> []) new"
  using assms
proof (induction xs arbitrary: writer)
  case Nil
  then show ?case by simp
next
  case (Cons i xs)
  show ?case
  proof (cases "pair_step reader pages (Inr writer) i")
    case (Inl e)
    with Cons.prems show ?thesis by (simp add: foldl_pair_step_Inl)
  next
    case (Inr w1)
    from pair_step_Inr [OF Inr] obtain sh where sh: "w1 = writer @ [sh]" "pages_on sh \<noteq> []"
      by blast
    from Cons.prems Inr have "foldl (pair_step reader pages) (Inr w1) xs = Inr writer'"
      by simp
    from Cons.IH [OF this] obtain new where new: "writer' = w1 @ new" "length new = length xs"
      "list_all (\<lambda>sh. pages_on sh \<noteq> []) new" by blast
    from sh new have "writer' = writer @ (sh # new) \<and> length (sh # new) = length (i # xs)
        \<and> list_all (\<lambda>sh. pages_on sh \<noteq> []) (sh # new)" by simp
    then show ?thesis by blast
  qed
qed

lemma length_range2_0: "int (length (range2 0 (int L))) = (int L + 1) div 2"
  by (simp add: length_range2)

lemma output_sheets_eq:
  "output_sheets pages append_blank
     = (int (length pages) + 1) div 2 + (if append_blank then 1 else 0)"
proof -
  have "\<lceil>real (length pages) / 2\<rceil> = \<lceil>real_of_int (int (length pages)) / 2\<rceil>" by simp
  also have "\<dots> = (int (length pages) + 1) div 2" by (rule ceiling_half)
  finally show ?thesis by (simp add: output_sheets_def)
qed

lemma build_print_pdf_Inr:
  assumes "build_print_pdf reader pages append_blank = Inr doc"
  shows "\<exists>sheets. doc = sheets
             @ (if append_blank
                then [create_blank_page (mediabox_width (reader ! 0) * 2)
                        (mediabox_height (reader ! 0))]
                else [])
           \<and> int (length sheets) = (int (length pages) + 1) div 2
           \<and> list_all (\<lambda>sh. pages_on sh \<noteq> []) sheets"
proof -
  from assms have r: "py_index reader 0 = Inr (reader ! 0)"
    by (auto simp add: build_print_pdf_def py_index_def split: if_splits sum.splits)
  from assms r obtain writer where
    w: "foldl (pair_step reader pages) (Inr []) (range2 0 (int (length pages))) = Inr writer"
    and doc: "doc = writer @ (if append_blank
                then [create_blank_page (mediabox_width (reader ! 0) * 2)
                        (mediabox_height (reader ! 0))]
                else [])"
    by (auto simp add: build_print_pdf_def Let_def split: sum.splits if_splits)
  from foldl_pair_step_Inr [OF w] have "length writer = length (range2 0 (int (length pages)))"
    and "list_all (\<lambda>sh. pages_on sh \<noteq> []) writer" by auto
  with doc show ?thesis by (auto simp add: length_range2_0)
qed

lemma length_build_print_pdf:
  assumes "build_print_pdf reader pages append_blank = Inr doc"
  shows "int (length doc) = output_sheets pages append_blank"
  using build_print_pdf_Inr [OF assms] by (auto simp add: output_sheets_eq)

section \<open>Evaluation\<close>

subsection \<open>Small page counts\<close>

lemma get_front_pages_small:
  "\<bar>n\<bar> < 2 ^ 53 \<Longrightarrow> get_front_pages n = Inr (filter (\<lambda>p. even ((p - 1) div 2)) [1..n])"
  by (rule get_front_pages_exact) (rule num_physical_sheets_small)

lemma get_back_pages_small:
  "\<bar>n\<bar> < 2 ^ 53 \<Longrightarrow> get_back_pages n = Inr (filter (\<lambda>p. odd ((p - 1) div 2)) [1..n])"
  by (rule get_back_pages_exact) (rule num_physical_sheets_small)

lemma needs_back_blank_small:
  "\<bar>n\<bar> < 2 ^ 53 \<Longrightarrow> needs_back_blank n = Inr (odd ((n + 1) div 2))"
  by (rule needs_back_blank_Inr) (rule num_physical_sheets_small)

lemmas engine_eval =
  num_physical_sheets_small get_front_pages_small get_back_pages_small needs_back_blank_small
  upto.simps

subsection \<open>Beyond the exact doubles\<close>

lemma sheets_beyond_53: "num_physical_sheets (2 ^ 53 + 1) = Inr (2 ^ 52)"
  by (rule sheets_a)





lemma exact_sheets_div:
  "num_physical_sheets n = Inr \<lceil>real_of_int n / 2\<rceil> \<longleftrightarrow>
     num_physical_sheets n = Inr ((n + 1) div 2)"
  by (simp add: ceiling_half)

section \<open>Properties of \<^verbatim>\<open>print_pdf\<close>\<close>

text \<open>
  For a list of fewer than \<open>2 ^ 53\<close> elements the double quotient of line 248 is the
  exact one: \<^verbatim>\<open>math.ceil(len(pages) / 2)\<close>, computed as \<^verbatim>\<open>num_physical_sheets\<close>
  computes it, is the rounded-up half that \<open>output_sheets\<close> takes.
\<close>

lemma output_sheets_double:
  assumes "length pages < 2 ^ 53"
  shows "num_physical_sheets (int (length pages)) = Inr (output_sheets pages False)"
proof -
  from assms have "int (length pages) < 2 ^ 53"
    by (metis of_nat_less_iff of_nat_numeral of_nat_power)
  then have "\<bar>int (length pages)\<bar> < 2 ^ 53" by simp
  from num_physical_sheets_small [OF this] show ?thesis
    by (simp add: output_sheets_eq)
qed

lemmas render_eval =
  print_pdf_def print_pdf_selection_def build_print_pdf_def pair_step_def py_index_def
  output_sheets_eq range2.simps Let_def

lemma print_pdf_front:
  "print_pdf reader ''front'' =
     (case get_front_pages (int (length reader)) of
        Inl e \<Rightarrow> Inl e
      | Inr pages \<Rightarrow>
          if pages = [] then Inr Skipped
          else case build_print_pdf reader pages False of
                 Inl e \<Rightarrow> Inl e
               | Inr doc \<Rightarrow> Inr (Sent (Some (output_sheets pages False)) doc))"
  by (simp add: print_pdf_def print_pdf_selection_def get_front_pages_def Let_def
      split: sum.splits)

lemma print_pdf_Sent:
  assumes "print_pdf reader side = Inr (Sent (Some k) sent)"
  shows "\<exists>pages append_blank.
           print_pdf_selection side (int (length reader)) = Inr (pages, append_blank)
           \<and> pages \<noteq> [] \<and> build_print_pdf reader pages append_blank = Inr sent
           \<and> k = output_sheets pages append_blank"
  using assms
  by (auto simp add: print_pdf_def Let_def split: sum.splits if_splits prod.splits)


lemmas win32_eval =
  print_via_win32_def win32_GetDefaultPrinter_def win32_SetDefaultPrinter_def
  win32_ShellExecute_def Let_def

section \<open>The claims\<close>

subsection \<open>The two passes partition the pages\<close>

text \<open>
  Claim C1, as amended. The number of sheets \<^verbatim>\<open>num_physical_sheets\<close> returns is the
  page count halved and rounded up for every page count from 0 to below \<open>2 ^ 53\<close>. For
  every page count that is not negative and has that number of sheets, the front and
  the back selection have that many pages together, the pages they hold are exactly
  the pages 1 to the page count, and no page stands twice, neither within a selection
  nor in both.

  As stated, for every page count that is not negative, the claim fails: for
  \<open>2 ^ 53 + 1\<close> pages the double quotient is \<open>2 ^ 52\<close>, one sheet short, and the last
  page is in neither selection.
\<close>

theorem front_back_partition:
  "(0 \<le> pageCount \<and> pageCount < 2 ^ 53 \<longrightarrow>
      num_physical_sheets pageCount = Inr \<lceil>real_of_int pageCount / 2\<rceil>)
   \<and> (0 \<le> pageCount \<and> num_physical_sheets pageCount = Inr \<lceil>real_of_int pageCount / 2\<rceil> \<longrightarrow>
      (\<exists>front back.
         get_front_pages pageCount = Inr front \<and> get_back_pages pageCount = Inr back
         \<and> int (length front) + int (length back) = pageCount
         \<and> set front \<union> set back = {1..pageCount}
         \<and> distinct (front @ back)))"
proof -
  let ?P = "\<lambda>p::int. even ((p - 1) div 2)"
  let ?f = "filter ?P [1..pageCount]"
  let ?b = "filter (\<lambda>p. \<not> ?P p) [1..pageCount]"
  have small: "num_physical_sheets pageCount = Inr \<lceil>real_of_int pageCount / 2\<rceil>"
    if "0 \<le> pageCount" "pageCount < 2 ^ 53"
    using that by (intro num_physical_sheets_small_ceiling) simp
  have part: "\<exists>front back.
         get_front_pages pageCount = Inr front \<and> get_back_pages pageCount = Inr back
         \<and> int (length front) + int (length back) = pageCount
         \<and> set front \<union> set back = {1..pageCount}
         \<and> distinct (front @ back)"
    if nn: "0 \<le> pageCount"
      and ex: "num_physical_sheets pageCount = Inr \<lceil>real_of_int pageCount / 2\<rceil>"
  proof -
    from ex have ex': "num_physical_sheets pageCount = Inr ((pageCount + 1) div 2)"
      by (simp add: exact_sheets_div)
    have f: "get_front_pages pageCount = Inr ?f"
      by (rule get_front_pages_exact [OF ex'])
    have b: "get_back_pages pageCount = Inr ?b"
      by (rule get_back_pages_exact [OF ex'])
    have "length ?f + length ?b = length [1..pageCount]"
      by (rule sum_length_filter_compl)
    then have len: "int (length ?f) + int (length ?b) = pageCount"
      using nn by simp
    have un: "set ?f \<union> set ?b = {1..pageCount}" by auto
    have di: "distinct (?f @ ?b)" by auto
    from f b len un di show ?thesis by blast
  qed
  from small part show ?thesis by blast
qed

theorem front_back_partition_witness:
  "(0::int) \<le> 5 \<and> (5::int) < 2 ^ 53
   \<and> num_physical_sheets 5 = Inr \<lceil>real_of_int 5 / 2\<rceil>
   \<and> get_front_pages 5 = Inr [1, 2, 5] \<and> get_back_pages 5 = Inr [3, 4]
   \<and> int (length [1, 2, 5 :: int]) + int (length [3, 4 :: int]) = 5
   \<and> set [1, 2, 5] \<union> set [3, 4] = {1..5::int}
   \<and> distinct ([1, 2, 5] @ [3, 4 :: int])"
proof -
  have e: "get_front_pages 5 = Inr [1, 2, 5]" "get_back_pages 5 = Inr [3, 4]"
    by (simp_all add: engine_eval)
  from front_back_partition [of 5] e show ?thesis by auto
qed

theorem front_back_partition_counterexample:
  "num_physical_sheets (2 ^ 53 + 1) = Inr (2 ^ 52)
   \<and> (\<exists>front back.
        get_front_pages (2 ^ 53 + 1) = Inr front \<and> get_back_pages (2 ^ 53 + 1) = Inr back
        \<and> 2 ^ 53 + 1 \<notin> set front \<union> set back
        \<and> set front \<union> set back \<noteq> {1..2 ^ 53 + 1})"
proof -
  let ?n = "2 ^ 53 + 1 :: int"
  let ?f = "concat (map (sheet_step ?n []) (range2 0 (2 ^ 52)))"
  let ?b = "concat (map (sheet_step ?n []) (range2 1 (2 ^ 52)))"
  note s = sheets_beyond_53
  have f: "get_front_pages ?n = Inr ?f" by (rule get_front_pages_Inr [OF s])
  have b: "get_back_pages ?n = Inr ?b" by (rule get_back_pages_Inr [OF s])
  have out: "?n \<notin> set ?f \<union> set ?b"
  proof
    assume "?n \<in> set ?f \<union> set ?b"
    then have "?n \<le> 2 * 2 ^ 52"
      using pass_pages_bounds [of ?n ?n 0 "2 ^ 52"] pass_pages_bounds [of ?n ?n 1 "2 ^ 52"]
      by blast
    then show False by simp
  qed
  have "?n \<in> {1..?n}" by simp
  with out have ne: "set ?f \<union> set ?b \<noteq> {1..?n}" by blast
  from s f b out ne show ?thesis by blast
qed

subsection \<open>The trailing blank\<close>

text \<open>
  Claim C2. The back pass needs a trailing blank exactly when the number of physical
  sheets \<^verbatim>\<open>num_physical_sheets\<close> returns is odd (and raises what that call raises),
  and the blank belongs to the back pass alone: for the front side \<^verbatim>\<open>print_pdf\<close>
  sets \<^verbatim>\<open>append_blank\<close> to \<^verbatim>\<open>False\<close> whatever the page count is, and builds its
  document with that flag, so every sheet of a document sent for the front side shows
  a page.
\<close>

theorem blank_only_on_back:
  "needs_back_blank pageCount =
     (case num_physical_sheets pageCount of
        Inl e \<Rightarrow> Inl e
      | Inr sheets \<Rightarrow> Inr (odd sheets))
   \<and> print_pdf_selection ''front'' pageCount =
     (case get_front_pages pageCount of
        Inl e \<Rightarrow> Inl e
      | Inr pages \<Rightarrow> Inr (pages, False))
   \<and> print_pdf reader ''front'' =
     (case get_front_pages (int (length reader)) of
        Inl e \<Rightarrow> Inl e
      | Inr pages \<Rightarrow>
          if pages = [] then Inr Skipped
          else case build_print_pdf reader pages False of
                 Inl e \<Rightarrow> Inl e
               | Inr doc \<Rightarrow> Inr (Sent (Some (output_sheets pages False)) doc))
   \<and> (print_pdf reader ''front'' = Inr (Sent k sent) \<longrightarrow>
        list_all (\<lambda>sh. pages_on sh \<noteq> []) sent)"
proof -
  have a: "needs_back_blank pageCount =
     (case num_physical_sheets pageCount of
        Inl e \<Rightarrow> Inl e
      | Inr sheets \<Rightarrow> Inr (odd sheets))"
    by (simp add: needs_back_blank_def odd_iff_mod_2_eq_one split: sum.splits)
  have b: "print_pdf_selection ''front'' pageCount =
     (case get_front_pages pageCount of
        Inl e \<Rightarrow> Inl e
      | Inr pages \<Rightarrow> Inr (pages, False))"
    by (simp add: print_pdf_selection_def)
  note c = print_pdf_front [of reader]
  have d: "list_all (\<lambda>sh. pages_on sh \<noteq> []) sent"
    if p: "print_pdf reader ''front'' = Inr (Sent k sent)"
  proof -
    from p obtain pages where "build_print_pdf reader pages False = Inr sent"
      unfolding c by (auto split: sum.splits if_splits)
    from build_print_pdf_Inr [OF this] show ?thesis by simp
  qed
  from a b c d show ?thesis by blast
qed

theorem blank_only_on_back_witness:
  "print_pdf
     [\<lparr>mediabox_width = 595, mediabox_height = 842, content = ''a''\<rparr>,
      \<lparr>mediabox_width = 595, mediabox_height = 842, content = ''b''\<rparr>,
      \<lparr>mediabox_width = 595, mediabox_height = 842, content = ''c''\<rparr>] ''front''
     = Inr (Sent (Some 1)
        [make_2up_sheet \<lparr>mediabox_width = 595, mediabox_height = 842, content = ''a''\<rparr>
           (Some \<lparr>mediabox_width = 595, mediabox_height = 842, content = ''b''\<rparr>)])
   \<and> list_all (\<lambda>sh. pages_on sh \<noteq> [])
        [make_2up_sheet \<lparr>mediabox_width = 595, mediabox_height = 842, content = ''a''\<rparr>
           (Some \<lparr>mediabox_width = 595, mediabox_height = 842, content = ''b''\<rparr>)]"
proof -
  let ?a = "\<lparr>mediabox_width = 595, mediabox_height = 842, content = ''a''\<rparr>"
  let ?b = "\<lparr>mediabox_width = 595, mediabox_height = 842, content = ''b''\<rparr>"
  let ?c = "\<lparr>mediabox_width = 595, mediabox_height = 842, content = ''c''\<rparr>"
  have p: "print_pdf [?a, ?b, ?c] ''front'' = Inr (Sent (Some 1) [make_2up_sheet ?a (Some ?b)])"
    by (simp add: render_eval engine_eval)
  from blank_only_on_back [where reader = "[?a, ?b, ?c]" and k = "Some 1"
      and sent = "[make_2up_sheet ?a (Some ?b)]"] p
  show ?thesis by blast
qed

subsection \<open>Sheets per pass\<close>

text \<open>
  Claim C3, as amended. The number of physical sheets is the page count halved and
  rounded up for every page count from 0 to below \<open>2 ^ 53\<close>, and 0 for no pages. For
  every page count that is not negative and has that number of sheets, the sheets of
  the two passes (each selection's length halved and rounded up) add up to the number
  of physical sheets whenever both selections are nonempty, and when the number of
  physical sheets is odd the front pass has one sheet more than the back pass.

  As stated, with the number of sheets equal to the rounded-up half for every page
  count that is not negative, the claim fails: for \<open>2 ^ 53 + 1\<close> pages
  \<^verbatim>\<open>num_physical_sheets\<close> returns \<open>2 ^ 52\<close>, and the rounded-up half is \<open>2 ^ 52 + 1\<close>.
\<close>

theorem pass_sheet_counts:
  "(0 \<le> pageCount \<and> pageCount < 2 ^ 53 \<longrightarrow>
      num_physical_sheets pageCount = Inr \<lceil>real_of_int pageCount / 2\<rceil>)
   \<and> num_physical_sheets 0 = Inr 0
   \<and> (0 \<le> pageCount \<and> num_physical_sheets pageCount = Inr \<lceil>real_of_int pageCount / 2\<rceil> \<longrightarrow>
      (\<exists>front back.
         get_front_pages pageCount = Inr front \<and> get_back_pages pageCount = Inr back
         \<and> (front \<noteq> [] \<and> back \<noteq> [] \<longrightarrow>
              \<lceil>real (length front) / 2\<rceil> + \<lceil>real (length back) / 2\<rceil>
                = \<lceil>real_of_int pageCount / 2\<rceil>)
         \<and> (odd \<lceil>real_of_int pageCount / 2\<rceil> \<longrightarrow>
              \<lceil>real (length front) / 2\<rceil> = \<lceil>real (length back) / 2\<rceil> + 1)))"
proof -
  let ?f = "filter (\<lambda>p::int. even ((p - 1) div 2)) [1..pageCount]"
  let ?b = "filter (\<lambda>p::int. odd ((p - 1) div 2)) [1..pageCount]"
  let ?S = "(pageCount + 1) div 2"
  have small: "num_physical_sheets pageCount = Inr \<lceil>real_of_int pageCount / 2\<rceil>"
    if "0 \<le> pageCount" "pageCount < 2 ^ 53"
    using that by (intro num_physical_sheets_small_ceiling) simp
  have z: "num_physical_sheets 0 = Inr 0"
    by (simp add: num_physical_sheets_small)
  have cl: "\<lceil>real (length xs) / 2\<rceil> = (int (length xs) + 1) div 2" for xs :: "int list"
    using ceiling_half [of "int (length xs)"] by simp
  have counts: "\<exists>front back.
         get_front_pages pageCount = Inr front \<and> get_back_pages pageCount = Inr back
         \<and> (front \<noteq> [] \<and> back \<noteq> [] \<longrightarrow>
              \<lceil>real (length front) / 2\<rceil> + \<lceil>real (length back) / 2\<rceil>
                = \<lceil>real_of_int pageCount / 2\<rceil>)
         \<and> (odd \<lceil>real_of_int pageCount / 2\<rceil> \<longrightarrow>
              \<lceil>real (length front) / 2\<rceil> = \<lceil>real (length back) / 2\<rceil> + 1)"
    if nn: "0 \<le> pageCount"
      and ex: "num_physical_sheets pageCount = Inr \<lceil>real_of_int pageCount / 2\<rceil>"
  proof -
    from ex have ex': "num_physical_sheets pageCount = Inr ?S"
      by (simp add: exact_sheets_div)
    have f: "get_front_pages pageCount = Inr ?f"
      by (rule get_front_pages_exact [OF ex'])
    have b: "get_back_pages pageCount = Inr ?b"
      by (rule get_back_pages_exact [OF ex'])
    from nn have S0: "0 \<le> ?S" by linarith
    have sum: "\<lceil>real (length ?f) / 2\<rceil> + \<lceil>real (length ?b) / 2\<rceil> = ?S"
      unfolding cl front_sheet_count back_sheet_count using S0
      by (simp split: if_splits) linarith
    have odd: "\<lceil>real (length ?f) / 2\<rceil> = \<lceil>real (length ?b) / 2\<rceil> + 1" if "odd ?S"
      unfolding cl front_sheet_count back_sheet_count using S0 that
      by (auto elim!: oddE)
    from f b sum odd show ?thesis
      unfolding ceiling_half [of pageCount] by blast
  qed
  from small z counts show ?thesis by blast
qed

theorem pass_sheet_counts_witness:
  "(0::int) \<le> 5 \<and> (5::int) < 2 ^ 53
   \<and> num_physical_sheets 5 = Inr \<lceil>real_of_int 5 / 2\<rceil>
   \<and> \<lceil>real_of_int 5 / 2\<rceil> = (3::int) \<and> odd (3::int)
   \<and> get_front_pages 5 = Inr [1, 2, 5] \<and> get_back_pages 5 = Inr [3, 4]
   \<and> [1, 2, 5] \<noteq> ([] :: int list) \<and> [3, 4] \<noteq> ([] :: int list)
   \<and> \<lceil>real (length [1, 2, 5 :: int]) / 2\<rceil> + \<lceil>real (length [3, 4 :: int]) / 2\<rceil> = (3::int)
   \<and> \<lceil>real (length [1, 2, 5 :: int]) / 2\<rceil> = \<lceil>real (length [3, 4 :: int]) / 2\<rceil> + (1::int)"
proof -
  have e: "get_front_pages 5 = Inr [1, 2, 5]" "get_back_pages 5 = Inr [3, 4]"
    by (simp_all add: engine_eval)
  have c: "\<lceil>real_of_int 5 / 2\<rceil> = (3::int)"
    by (simp add: ceiling_half)
  from pass_sheet_counts [of 5] e c show ?thesis by auto
qed

theorem pass_sheet_counts_counterexample:
  "(0::int) \<le> 2 ^ 53 + 1
   \<and> num_physical_sheets (2 ^ 53 + 1) = Inr (2 ^ 52)
   \<and> \<lceil>real_of_int (2 ^ 53 + 1) / 2\<rceil> = (2 ^ 52 + 1 :: int)
   \<and> num_physical_sheets (2 ^ 53 + 1) \<noteq> Inr \<lceil>real_of_int (2 ^ 53 + 1) / 2\<rceil>"
proof -
  have c: "\<lceil>real_of_int (2 ^ 53 + 1) / 2\<rceil> = (2 ^ 52 + 1 :: int)"
    unfolding ceiling_half by simp
  from sheets_beyond_53 c show ?thesis by simp
qed

subsection \<open>The selections, sheet by sheet\<close>

text \<open>
  Claim C4. The front selection is the concatenation, over the sheet indices
  0, 2, 4, ... below the number of physical sheets, of the first page \<open>2s + 1\<close> of the
  sheet followed by \<open>2s + 2\<close> when the document has that page; the back selection is
  the same over the indices 1, 3, 5, ...; and both selections are strictly increasing.
  Where \<^verbatim>\<open>num_physical_sheets\<close> raises, both sides of each equation raise the same.
\<close>

theorem pages_as_specified:
  "get_front_pages pageCount = spec_front_pages pageCount
   \<and> get_back_pages pageCount = spec_back_pages pageCount
   \<and> (get_front_pages pageCount = Inr front \<longrightarrow> sorted_wrt (<) front)
   \<and> (get_back_pages pageCount = Inr back \<longrightarrow> sorted_wrt (<) back)"
proof -
  have sp: "sheet_step pageCount [] = spec_sheet_pages pageCount"
    by (rule ext) (rule sheet_step_spec)
  have f: "get_front_pages pageCount = spec_front_pages pageCount"
    by (simp add: get_front_pages_def spec_front_pages_def foldl_sheet_step sp range2_even
        split: sum.splits)
  have b: "get_back_pages pageCount = spec_back_pages pageCount"
    by (simp add: get_back_pages_def spec_back_pages_def foldl_sheet_step sp range2_odd
        split: sum.splits)
  have sf: "sorted_wrt (<) front" if "get_front_pages pageCount = Inr front"
    using that sorted_pass_pages [of pageCount 0]
    by (auto simp add: get_front_pages_def foldl_sheet_step split: sum.splits)
  have sb: "sorted_wrt (<) back" if "get_back_pages pageCount = Inr back"
    using that sorted_pass_pages [of pageCount 1]
    by (auto simp add: get_back_pages_def foldl_sheet_step split: sum.splits)
  from f b sf sb show ?thesis by blast
qed

theorem pages_as_specified_witness:
  "get_front_pages 7 = Inr [1, 2, 5, 6] \<and> spec_front_pages 7 = Inr [1, 2, 5, 6]
   \<and> get_back_pages 7 = Inr [3, 4, 7] \<and> spec_back_pages 7 = Inr [3, 4, 7]
   \<and> sorted_wrt (<) [1, 2, 5, 6 :: int] \<and> sorted_wrt (<) [3, 4, 7 :: int]"
proof -
  have f: "spec_front_pages 7 = Inr [1, 2, 5, 6]"
    by (simp add: spec_front_pages_def spec_sheet_pages_def num_physical_sheets_small
        upto.simps)
  have b: "spec_back_pages 7 = Inr [3, 4, 7]"
    by (simp add: spec_back_pages_def spec_sheet_pages_def num_physical_sheets_small
        upto.simps)
  from pages_as_specified [of 7 "[1, 2, 5, 6]" "[3, 4, 7]"] f b show ?thesis by simp
qed

subsection \<open>The rendered document\<close>

text \<open>
  Claim C5. For a nonempty selection of pages of the document and either blank flag,
  \<^verbatim>\<open>build_print_pdf\<close> returns a document with exactly
  \<open>ceil(len(selection) / 2) + (1 if blank else 0)\<close> sheets, the number \<^verbatim>\<open>print_pdf\<close>
  computes in line 248. Its sheets are the selected pages taken two at a time in the
  order of the selection, followed by the blank sheet when one is requested; read
  sheet by sheet the document shows each selected page once, in order; every sheet
  before the blank one shows a page and the blank one shows none. Whenever
  \<^verbatim>\<open>print_pdf\<close> announces a number of output sheets, the document it sends has that
  many.
\<close>

theorem rendered_sheets:
  "(pages \<noteq> [] \<and> set pages \<subseteq> {1..int (length (reader :: 'c page list))} \<longrightarrow>
      (\<exists>doc. build_print_pdf reader pages append_blank = Inr doc
         \<and> int (length doc) = output_sheets pages append_blank
         \<and> doc = spec_pair_up (map (\<lambda>p. reader ! nat (p - 1)) pages)
             @ (if append_blank
                then [create_blank_page (mediabox_width (reader ! 0) * 2)
                        (mediabox_height (reader ! 0))]
                else [])
         \<and> concat (map pages_on doc) = map (\<lambda>p. reader ! nat (p - 1)) pages
         \<and> list_all (\<lambda>sh. pages_on sh \<noteq> [])
              (spec_pair_up (map (\<lambda>p. reader ! nat (p - 1)) pages))))
   \<and> pages_on (create_blank_page w h :: 'c sheet) = []
   \<and> (print_pdf reader side = Inr (Sent (Some k) sent) \<longrightarrow> int (length sent) = k)"
proof -
  let ?sel = "map (\<lambda>p. reader ! nat (p - 1)) pages"
  let ?blank = "create_blank_page (mediabox_width (reader ! 0) * 2)
       (mediabox_height (reader ! 0)) :: 'c sheet"
  have bl: "pages_on (create_blank_page w h :: 'c sheet) = []" for w h
    by (simp add: pages_on_def create_blank_page_def)
  have a: "\<exists>doc. build_print_pdf reader pages append_blank = Inr doc
         \<and> int (length doc) = output_sheets pages append_blank
         \<and> doc = spec_pair_up ?sel @ (if append_blank then [?blank] else [])
         \<and> concat (map pages_on doc) = ?sel
         \<and> list_all (\<lambda>sh. pages_on sh \<noteq> []) (spec_pair_up ?sel)"
    if ne: "pages \<noteq> []" and sub: "set pages \<subseteq> {1..int (length reader)}"
  proof -
    from sub ne have r: "reader \<noteq> []" by (rule nonempty_selection_reader)
    let ?doc = "spec_pair_up ?sel @ (if append_blank then [?blank] else [])"
    have 1: "build_print_pdf reader pages append_blank = Inr ?doc"
      by (rule build_print_pdf_spec [OF r subset_range_ball [OF sub]])
    have 2: "int (length ?doc) = output_sheets pages append_blank"
      using 1 by (rule length_build_print_pdf)
    have 3: "concat (map pages_on ?doc) = ?sel"
      by (simp add: concat_pages_on_spec_pair_up bl)
    have 4: "list_all (\<lambda>sh. pages_on sh \<noteq> []) (spec_pair_up ?sel)"
      unfolding list_all_iff using spec_pair_up_no_blank by blast
    from 1 2 3 4 show ?thesis by blast
  qed
  have b: "int (length sent) = k" if p: "print_pdf reader side = Inr (Sent (Some k) sent)"
  proof -
    from print_pdf_Sent [OF p] obtain ps ab
      where "build_print_pdf reader ps ab = Inr sent" and "k = output_sheets ps ab"
      by blast
    with length_build_print_pdf [of reader ps ab sent] show ?thesis by simp
  qed
  from a bl b show ?thesis by blast
qed

theorem rendered_sheets_witness:
  "[3, 1, 2] \<noteq> ([] :: int list)
   \<and> set [3, 1, 2] \<subseteq> {1..int (length
        [\<lparr>mediabox_width = 595, mediabox_height = 842, content = ''a''\<rparr>,
         \<lparr>mediabox_width = 595, mediabox_height = 842, content = ''b''\<rparr>,
         \<lparr>mediabox_width = 595, mediabox_height = 842, content = ''c''\<rparr>])}
   \<and> build_print_pdf
        [\<lparr>mediabox_width = 595, mediabox_height = 842, content = ''a''\<rparr>,
         \<lparr>mediabox_width = 595, mediabox_height = 842, content = ''b''\<rparr>,
         \<lparr>mediabox_width = 595, mediabox_height = 842, content = ''c''\<rparr>] [3, 1, 2] True
       = Inr
        [make_2up_sheet \<lparr>mediabox_width = 595, mediabox_height = 842, content = ''c''\<rparr>
           (Some \<lparr>mediabox_width = 595, mediabox_height = 842, content = ''a''\<rparr>),
         make_2up_sheet \<lparr>mediabox_width = 595, mediabox_height = 842, content = ''b''\<rparr> None,
         create_blank_page 1190 842]
   \<and> output_sheets [3, 1, 2] True = 3
   \<and> print_pdf
        [\<lparr>mediabox_width = 595, mediabox_height = 842, content = ''a''\<rparr>,
         \<lparr>mediabox_width = 595, mediabox_height = 842, content = ''b''\<rparr>,
         \<lparr>mediabox_width = 595, mediabox_height = 842, content = ''c''\<rparr>] ''front''
       = Inr (Sent (Some 1)
        [make_2up_sheet \<lparr>mediabox_width = 595, mediabox_height = 842, content = ''a''\<rparr>
           (Some \<lparr>mediabox_width = 595, mediabox_height = 842, content = ''b''\<rparr>)])
   \<and> int (length
        [make_2up_sheet \<lparr>mediabox_width = 595, mediabox_height = 842, content = ''a''\<rparr>
           (Some \<lparr>mediabox_width = 595, mediabox_height = 842, content = ''b''\<rparr>)]) = 1"
proof -
  let ?a = "\<lparr>mediabox_width = 595, mediabox_height = 842, content = ''a''\<rparr>"
  let ?b = "\<lparr>mediabox_width = 595, mediabox_height = 842, content = ''b''\<rparr>"
  let ?c = "\<lparr>mediabox_width = 595, mediabox_height = 842, content = ''c''\<rparr>"
  have p: "print_pdf [?a, ?b, ?c] ''front'' = Inr (Sent (Some 1) [make_2up_sheet ?a (Some ?b)])"
    by (simp add: render_eval engine_eval)
  have o: "output_sheets [3, 1, 2] True = 3"
    by (simp add: output_sheets_eq)
  from rendered_sheets [where pages = "[3, 1, 2]" and reader = "[?a, ?b, ?c]"
      and append_blank = True and side = "''front''" and k = 1
      and sent = "[make_2up_sheet ?a (Some ?b)]"] p o
  show ?thesis by auto
qed

subsection \<open>Small documents and the scenarios of the specification\<close>

text \<open>
  Claim C6. A document of one page has one physical sheet, an odd number; its front
  selection is page 1, its back selection is empty, and the back pass needs a blank.
  The back pass of such a document is not skipped: \<^verbatim>\<open>print_pdf\<close> sends a document of
  exactly one sheet with nothing merged into it. A back pass with no pages and no blank
  owed (the document without pages) is skipped.
\<close>

theorem single_page_document:
  "num_physical_sheets 1 = Inr 1 \<and> odd (1::int)
   \<and> get_front_pages 1 = Inr [1] \<and> get_back_pages 1 = Inr [] \<and> needs_back_blank 1 = Inr True
   \<and> print_pdf [p] ''back''
        = Inr (Sent None [create_blank_page (mediabox_width p * 2) (mediabox_height p)])
   \<and> merged (create_blank_page (mediabox_width p * 2) (mediabox_height p) :: 'c sheet) = []
   \<and> get_back_pages 0 = Inr [] \<and> needs_back_blank 0 = Inr False
   \<and> print_pdf ([] :: 'c page list) ''back'' = Inr Skipped"
proof -
  have e: "num_physical_sheets 1 = Inr 1" "get_front_pages 1 = Inr [1]"
    "get_back_pages 1 = Inr []" "needs_back_blank 1 = Inr True"
    "get_back_pages 0 = Inr []" "needs_back_blank 0 = Inr False"
    by (simp_all add: engine_eval)
  have b1: "print_pdf [p] ''back''
        = Inr (Sent None [create_blank_page (mediabox_width p * 2) (mediabox_height p)])"
    by (simp add: render_eval engine_eval)
  have b0: "print_pdf ([] :: 'c page list) ''back'' = Inr Skipped"
    by (simp add: render_eval engine_eval)
  have m: "merged (create_blank_page (mediabox_width p * 2) (mediabox_height p) :: 'c sheet) = []"
    by (simp add: create_blank_page_def)
  from e b1 b0 m show ?thesis by simp
qed

text \<open>
  Claim C7. The scenarios: 5 pages give 3 sheets, front pages 1, 2, 5, back pages 3, 4,
  a trailing blank, and two output sheets in each pass (for the back pass one sheet of
  pages and the blank); 12 pages give 6 sheets, front pages 1, 2, 5, 6, 9, 10, back
  pages 3, 4, 7, 8, 11, 12, no trailing blank and 3 output sheets per pass; no pages
  give empty selections, no trailing blank, zero output sheets, and both passes are
  skipped.
\<close>

theorem concrete_scenarios:
  "num_physical_sheets 5 = Inr 3
   \<and> get_front_pages 5 = Inr [1, 2, 5] \<and> get_back_pages 5 = Inr [3, 4]
   \<and> needs_back_blank 5 = Inr True
   \<and> print_pdf [p1, p2, p3, p4, p5] ''front''
        = Inr (Sent (Some 2) [make_2up_sheet p1 (Some p2), make_2up_sheet p5 None])
   \<and> print_pdf [p1, p2, p3, p4, p5] ''back''
        = Inr (Sent (Some 2) [make_2up_sheet p3 (Some p4),
            create_blank_page (mediabox_width p1 * 2) (mediabox_height p1)])
   \<and> num_physical_sheets 12 = Inr 6
   \<and> get_front_pages 12 = Inr [1, 2, 5, 6, 9, 10]
   \<and> get_back_pages 12 = Inr [3, 4, 7, 8, 11, 12]
   \<and> needs_back_blank 12 = Inr False
   \<and> output_sheets [1, 2, 5, 6, 9, 10] False = 3
   \<and> output_sheets [3, 4, 7, 8, 11, 12] False = 3
   \<and> print_pdf [q1, q2, q3, q4, q5, q6, q7, q8, q9, q10, q11, q12] ''front''
        = Inr (Sent (Some 3) [make_2up_sheet q1 (Some q2), make_2up_sheet q5 (Some q6),
            make_2up_sheet q9 (Some q10)])
   \<and> print_pdf [q1, q2, q3, q4, q5, q6, q7, q8, q9, q10, q11, q12] ''back''
        = Inr (Sent (Some 3) [make_2up_sheet q3 (Some q4), make_2up_sheet q7 (Some q8),
            make_2up_sheet q11 (Some q12)])
   \<and> get_front_pages 0 = Inr [] \<and> get_back_pages 0 = Inr [] \<and> needs_back_blank 0 = Inr False
   \<and> output_sheets [] False = 0
   \<and> print_pdf ([] :: 'c page list) ''front'' = Inr Skipped
   \<and> print_pdf ([] :: 'c page list) ''back'' = Inr Skipped"
proof -
  have e5: "num_physical_sheets 5 = Inr 3" "get_front_pages 5 = Inr [1, 2, 5]"
    "get_back_pages 5 = Inr [3, 4]" "needs_back_blank 5 = Inr True"
    by (simp_all add: engine_eval)
  have e12: "num_physical_sheets 12 = Inr 6" "get_front_pages 12 = Inr [1, 2, 5, 6, 9, 10]"
    "get_back_pages 12 = Inr [3, 4, 7, 8, 11, 12]" "needs_back_blank 12 = Inr False"
    by (simp_all add: engine_eval)
  have e0: "get_front_pages 0 = Inr []" "get_back_pages 0 = Inr []"
    "needs_back_blank 0 = Inr False" "num_physical_sheets 0 = Inr 0"
    by (simp_all add: engine_eval)
  have f5: "print_pdf [p1, p2, p3, p4, p5] ''front''
        = Inr (Sent (Some 2) [make_2up_sheet p1 (Some p2), make_2up_sheet p5 None])"
    by (simp add: render_eval e5)
  have b5: "print_pdf [p1, p2, p3, p4, p5] ''back''
        = Inr (Sent (Some 2) [make_2up_sheet p3 (Some p4),
            create_blank_page (mediabox_width p1 * 2) (mediabox_height p1)])"
    by (simp add: render_eval e5)
  have o12: "output_sheets [1, 2, 5, 6, 9, 10] False = 3"
    "output_sheets [3, 4, 7, 8, 11, 12] False = 3"
    by (simp_all add: output_sheets_eq)
  have o0: "output_sheets [] False = 0"
    by (simp add: output_sheets_eq)
  let ?r = "[q1, q2, q3, q4, q5, q6, q7, q8, q9, q10, q11, q12]"
  have bf: "build_print_pdf ?r [1, 2, 5, 6, 9, 10] False
      = Inr [make_2up_sheet q1 (Some q2), make_2up_sheet q5 (Some q6),
             make_2up_sheet q9 (Some q10)]"
    by (subst build_print_pdf_spec) simp_all
  have bb: "build_print_pdf ?r [3, 4, 7, 8, 11, 12] False
      = Inr [make_2up_sheet q3 (Some q4), make_2up_sheet q7 (Some q8),
             make_2up_sheet q11 (Some q12)]"
    by (subst build_print_pdf_spec) simp_all
  have f12: "print_pdf ?r ''front''
        = Inr (Sent (Some 3) [make_2up_sheet q1 (Some q2), make_2up_sheet q5 (Some q6),
            make_2up_sheet q9 (Some q10)])"
    by (simp add: print_pdf_def print_pdf_selection_def e12 bf output_sheets_eq)
  have b12: "print_pdf ?r ''back''
        = Inr (Sent (Some 3) [make_2up_sheet q3 (Some q4), make_2up_sheet q7 (Some q8),
            make_2up_sheet q11 (Some q12)])"
    by (simp add: print_pdf_def print_pdf_selection_def e12 bb output_sheets_eq)
  have p0: "print_pdf ([] :: 'c page list) ''front'' = Inr Skipped"
    "print_pdf ([] :: 'c page list) ''back'' = Inr Skipped"
    by (simp_all add: render_eval e0)
  from e5 e12 e0 f5 b5 o12 o0 f12 b12 p0 show ?thesis by simp
qed

subsection \<open>No lookup leaves the document\<close>




subsection \<open>The blank-only branch\<close>

text \<open>
  Claim C9. For a page count that is not negative the back selection is empty exactly
  when the count is at most 2 (for a negative count it is empty unless the division
  raises). The condition under which \<^verbatim>\<open>print_pdf\<close> sends the blank-only sheet, at
  least one physical sheet, says that there is at least one page; for a page count
  that is not negative and has an empty back selection it agrees with
  \<^verbatim>\<open>needs_back_blank\<close>. So for a document whose back selection is empty the back pass
  sends the blank-only sheet when a trailing blank is owed and is skipped when none is.
\<close>

theorem blank_only_branch:
  "(get_back_pages pageCount = Inr [] \<longleftrightarrow>
      pageCount \<le> 2 \<and> (pageCount < 0 \<longrightarrow> num_physical_sheets pageCount \<noteq> Inl OverflowError))
   \<and> (num_physical_sheets pageCount = Inr sheets \<longrightarrow> (1 \<le> sheets \<longleftrightarrow> 1 \<le> pageCount))
   \<and> (0 \<le> pageCount \<and> get_back_pages pageCount = Inr [] \<longrightarrow>
        (\<exists>num_sheets. num_physical_sheets pageCount = Inr num_sheets
           \<and> needs_back_blank pageCount = Inr (1 \<le> num_sheets)))
   \<and> (get_back_pages (int (length reader)) = Inr [] \<longrightarrow>
        print_pdf reader ''back'' =
          (if needs_back_blank (int (length reader)) = Inr True
           then Inr (Sent None
             [create_blank_page (mediabox_width (reader ! 0) * 2) (mediabox_height (reader ! 0))])
           else Inr Skipped))"
proof -
  have small: "num_physical_sheets n = Inr ((n + 1) div 2)" if "0 \<le> n" "n \<le> 2" for n
    using that by (intro num_physical_sheets_small) simp
  have a: "get_back_pages pageCount = Inr [] \<longleftrightarrow>
      pageCount \<le> 2 \<and> (pageCount < 0 \<longrightarrow> num_physical_sheets pageCount \<noteq> Inl OverflowError)"
  proof (cases "0 \<le> pageCount \<and> pageCount \<le> 2")
    case True
    with small [of pageCount] show ?thesis by (simp add: get_back_pages_empty)
  next
    case False
    then show ?thesis by (auto simp add: get_back_pages_empty)
  qed
  have b: "1 \<le> sheets \<longleftrightarrow> 1 \<le> pageCount" if "num_physical_sheets pageCount = Inr sheets"
    using that by (rule num_physical_sheets_positive)
  have c: "num_physical_sheets n = Inr ((n + 1) div 2)
      \<and> needs_back_blank n = Inr (1 \<le> (n + 1) div 2)"
    if "0 \<le> n" "get_back_pages n = Inr []" for n
  proof -
    from that(2) have le: "n \<le> 2" by (simp add: get_back_pages_empty)
    note S = small [OF that(1) le]
    from that(1) le have "n = 0 \<or> n = 1 \<or> n = 2" by linarith
    then have "odd ((n + 1) div 2) \<longleftrightarrow> 1 \<le> (n + 1) div 2" by auto
    with S needs_back_blank_Inr [OF S] show ?thesis by simp
  qed
  have d: "print_pdf reader ''back'' =
          (if needs_back_blank (int (length reader)) = Inr True
           then Inr (Sent None
             [create_blank_page (mediabox_width (reader ! 0) * 2) (mediabox_height (reader ! 0))])
           else Inr Skipped)"
    if e: "get_back_pages (int (length reader)) = Inr []"
  proof -
    let ?n = "int (length reader)"
    from c [OF _ e] have S: "num_physical_sheets ?n = Inr ((?n + 1) div 2)"
      and nb: "needs_back_blank ?n = Inr (1 \<le> (?n + 1) div 2)" by simp_all
    show ?thesis
    proof (cases "1 \<le> (?n + 1) div 2")
      case True
      then have "reader \<noteq> []" by auto
      then have "py_index reader 0 = Inr (reader ! 0)"
        by (simp add: py_index_def)
      with True S nb e show ?thesis
        by (simp add: print_pdf_def print_pdf_selection_def)
    next
      case False
      with S nb e show ?thesis
        by (simp add: print_pdf_def print_pdf_selection_def)
    qed
  qed
  from a b c [of pageCount] d show ?thesis by blast
qed

theorem blank_only_branch_witness:
  "(0::int) \<le> 2 \<and> get_back_pages 2 = Inr [] \<and> num_physical_sheets 2 = Inr 1
   \<and> needs_back_blank 2 = Inr True
   \<and> print_pdf
        [\<lparr>mediabox_width = 595, mediabox_height = 842, content = ''a''\<rparr>,
         \<lparr>mediabox_width = 595, mediabox_height = 842, content = ''b''\<rparr>] ''back''
       = Inr (Sent None [create_blank_page 1190 842])"
proof -
  have e: "get_back_pages 2 = Inr []" "num_physical_sheets 2 = Inr 1"
    "needs_back_blank 2 = Inr True"
    by (simp_all add: engine_eval)
  from blank_only_branch [of 2 1
      "[\<lparr>mediabox_width = 595, mediabox_height = 842, content = ''a''\<rparr>,
        \<lparr>mediabox_width = 595, mediabox_height = 842, content = ''b''\<rparr>]"] e
  show ?thesis by simp
qed

subsection \<open>The default printer\<close>

text \<open>
  Claim C10, as amended. \<^verbatim>\<open>print_via_win32\<close> reads the default printer before it
  switches to the target printer, and on every way out after that read its last call
  sets the printer it read back as the default. The default printer is then the one the
  function found, with one exception: when the switch to the target printer succeeded
  and the call that sets the original back raises, because the spooler no longer
  accepts that name, the target printer stays the default. When pywin32 is missing or
  no default printer can be read, nothing is changed.

  As stated, with the default printer restored on every way out, the claim fails on a
  spooler whose default printer is a name it rejects.
\<close>

theorem default_printer_restored:
  "printers (snd (print_via_win32 pdf_path printer w)) = printers w
   \<and> default_printer (snd (print_via_win32 pdf_path printer w)) =
       (case default_printer w of
          None \<Rightarrow> None
        | Some original \<Rightarrow>
            if pywin32_installed w \<and> printer \<in> set (printers w)
               \<and> original \<notin> set (printers w)
            then Some printer else Some original)
   \<and> (pywin32_installed w \<and> default_printer w = Some d \<longrightarrow>
        calls (snd (print_via_win32 pdf_path printer w))
        = calls w @ [GetDefaultPrinter, SetDefaultPrinter printer]
            @ (if printer \<in> set (printers w)
               then [ShellExecute ''printto'' pdf_path ([CHR 0x22] @ printer @ [CHR 0x22])]
               else [])
            @ [SetDefaultPrinter d])
   \<and> (fst (print_via_win32 pdf_path printer w) = Inr () \<longleftrightarrow>
        pywin32_installed w \<and> printer \<in> set (printers w) \<and> shell_execute_ok w
        \<and> (\<exists>original. default_printer w = Some original \<and> original \<in> set (printers w)))"
proof (cases "pywin32_installed w")
  case False
  then show ?thesis by (simp add: print_via_win32_def split: option.splits)
next
  case True
  show ?thesis
  proof (cases "default_printer w")
    case None
    with True show ?thesis by (simp add: win32_eval)
  next
    case (Some original)
    show ?thesis
    proof (cases "printer \<in> set (printers w)")
      case ok: True
      show ?thesis
      proof (cases "original \<in> set (printers w)")
        case kept: True
        with True Some ok show ?thesis by (simp add: win32_eval)
      next
        case stale: False
        with True Some ok show ?thesis by (simp add: win32_eval)
      qed
    next
      case bad: False
      show ?thesis
      proof (cases "original \<in> set (printers w)")
        case kept: True
        with True Some bad show ?thesis by (simp add: win32_eval)
      next
        case stale: False
        with True Some bad show ?thesis by (simp add: win32_eval)
      qed
    qed
  qed
qed

theorem default_printer_restored_witness:
  "print_via_win32 ''job.pdf'' ''EPSON L130 Series''
        \<lparr>pywin32_installed = True, default_printer = Some ''HP'',
         printers = [''HP'', ''EPSON L130 Series''], shell_execute_ok = False, calls = []\<rparr>
     = (Inl Win32Error,
        \<lparr>pywin32_installed = True, default_printer = Some ''HP'',
         printers = [''HP'', ''EPSON L130 Series''], shell_execute_ok = False,
         calls = [GetDefaultPrinter, SetDefaultPrinter ''EPSON L130 Series'',
           ShellExecute ''printto'' ''job.pdf'' ([CHR 0x22] @ ''EPSON L130 Series'' @ [CHR 0x22]),
           SetDefaultPrinter ''HP'']\<rparr>)
   \<and> default_printer (snd (print_via_win32 ''job.pdf'' ''EPSON L130 Series''
        \<lparr>pywin32_installed = True, default_printer = Some ''HP'',
         printers = [''HP'', ''EPSON L130 Series''], shell_execute_ok = False, calls = []\<rparr>))
     = Some ''HP''"
proof -
  let ?w = "\<lparr>pywin32_installed = True, default_printer = Some ''HP'',
      printers = [''HP'', ''EPSON L130 Series''], shell_execute_ok = False, calls = []\<rparr>"
  have run: "print_via_win32 ''job.pdf'' ''EPSON L130 Series'' ?w
     = (Inl Win32Error,
        \<lparr>pywin32_installed = True, default_printer = Some ''HP'',
         printers = [''HP'', ''EPSON L130 Series''], shell_execute_ok = False,
         calls = [GetDefaultPrinter, SetDefaultPrinter ''EPSON L130 Series'',
           ShellExecute ''printto'' ''job.pdf'' ([CHR 0x22] @ ''EPSON L130 Series'' @ [CHR 0x22]),
           SetDefaultPrinter ''HP'']\<rparr>)"
    by (simp add: win32_eval)
  from default_printer_restored [of "''job.pdf''" "''EPSON L130 Series''" ?w "''HP''"]
  have "default_printer (snd (print_via_win32 ''job.pdf'' ''EPSON L130 Series'' ?w))
     = Some ''HP''"
    by simp
  with run show ?thesis by simp
qed

theorem default_printer_restored_counterexample:
  "default_printer
      \<lparr>pywin32_installed = True, default_printer = Some ''Removed printer'',
       printers = [''EPSON L130 Series''], shell_execute_ok = True, calls = []\<rparr>
     = Some ''Removed printer''
   \<and> print_via_win32 ''job.pdf'' ''EPSON L130 Series''
        \<lparr>pywin32_installed = True, default_printer = Some ''Removed printer'',
         printers = [''EPSON L130 Series''], shell_execute_ok = True, calls = []\<rparr>
     = (Inl Win32Error,
        \<lparr>pywin32_installed = True, default_printer = Some ''EPSON L130 Series'',
         printers = [''EPSON L130 Series''], shell_execute_ok = True,
         calls = [GetDefaultPrinter, SetDefaultPrinter ''EPSON L130 Series'',
           ShellExecute ''printto'' ''job.pdf'' ([CHR 0x22] @ ''EPSON L130 Series'' @ [CHR 0x22]),
           SetDefaultPrinter ''Removed printer'']\<rparr>)"
  by (simp add: win32_eval)

end
